theory Spec2Isabelle
  imports Main "HOL-Library.Multiset"
begin

section \<open>Brute-force travelling salesman: the problem model and the solver\<close>

text \<open>
  The development follows \<^verbatim>\<open>TSPproblem.py\<close>. Cities are values of an arbitrary type
  \<open>'c\<close> compared by equality. The distance table is a dictionary of dictionaries. An
  entry is a Python integer (unbounded) or the float \<^verbatim>\<open>math.inf\<close>, the value the program
  itself starts its minimum from. Finite floats are left out: \<^verbatim>\<open>sum\<close> rounds them, and
  how it does so depends on the interpreter (compensated summation from Python 3.12 on);
  what they can do to the solver that integers cannot is to overflow to \<^verbatim>\<open>inf\<close>, which an
  entry \<^verbatim>\<open>math.inf\<close> does as well.

  A failure is a value of type \<open>error\<close>: \<open>IndexError\<close> for a tuple index out of range,
  \<open>KeyError\<close> for a missing dictionary key, \<open>OverflowError\<close> for an integer too large
  to be converted when it is added to a float.
\<close>

datatype error = IndexError | KeyError | OverflowError

datatype cost = Num int | Infinity

text \<open>
  \<^verbatim>\<open>int + float\<close> converts the integer to a double first, rounding to nearest; this
  raises from \<open>2^1024 - 2^970\<close> on, half-way between the largest double and \<open>2^1024\<close>.
\<close>

definition float_ok :: "int \<Rightarrow> bool" where
  "float_ok n = (\<bar>n\<bar> < 2 ^ 1024 - 2 ^ 970)"

text \<open>\<^verbatim>\<open>a + b\<close> on these values: exact on integers, \<^verbatim>\<open>inf\<close> as soon as one side is.\<close>

fun add_cost :: "cost \<Rightarrow> cost \<Rightarrow> error + cost" where
  "add_cost (Num a) (Num b) = Inr (Num (a + b))"
| "add_cost (Num a) Infinity = (if float_ok a then Inr Infinity else Inl OverflowError)"
| "add_cost Infinity (Num b) = (if float_ok b then Inr Infinity else Inl OverflowError)"
| "add_cost Infinity Infinity = Inr Infinity"

text \<open>
  \<^verbatim>\<open>a < b\<close>: Python compares an integer with a float exactly, so every integer is below
  \<^verbatim>\<open>inf\<close>, and \<^verbatim>\<open>inf < inf\<close> is false.
\<close>

fun cost_less :: "cost \<Rightarrow> cost \<Rightarrow> bool" where
  "cost_less (Num a) (Num b) = (a < b)"
| "cost_less (Num a) Infinity = True"
| "cost_less Infinity b = False"

text \<open>The integer of an integer entry.\<close>

fun int_of :: "cost \<Rightarrow> int" where
  "int_of (Num a) = a"
| "int_of Infinity = 0"

text \<open>
  The fields of \<^verbatim>\<open>TSPProblem\<close>: \<open>initial\<close> and \<open>goal\<close> come from the base class
  \<^verbatim>\<open>Problem\<close> (the constructor leaves \<open>goal\<close> at \<^verbatim>\<open>None\<close>).
\<close>

record 'c TSPProblem =
  initial :: "'c"
  goal :: "'c list option"
  cities :: "'c list"
  distances :: "'c \<rightharpoonup> ('c \<rightharpoonup> cost)"

subsection \<open>The problem model\<close>

definition actions :: "'c TSPProblem \<Rightarrow> 'c list \<Rightarrow> 'c list" where
  "actions problem state =
     (let visited = set state in filter (\<lambda>city. city \<notin> visited) (cities problem))"

definition result :: "'c TSPProblem \<Rightarrow> 'c list \<Rightarrow> 'c \<Rightarrow> 'c list" where
  "result problem state action = state @ [action]"

text \<open>
  \<^verbatim>\<open>len(state) == len(self.cities) + 1 and state[0] == state[-1]\<close>: the conjunction
  short-circuits, so the subscripts are only evaluated on a non-empty state.
\<close>

definition is_goal :: "'c TSPProblem \<Rightarrow> 'c list \<Rightarrow> bool" where
  "is_goal problem state =
     (length state = length (cities problem) + 1 \<and> hd state = last state)"

text \<open>\<^verbatim>\<open>problem.distances[a][b]\<close>: two dictionary subscripts, the outer one first.\<close>

definition lookup :: "'c TSPProblem \<Rightarrow> 'c \<Rightarrow> 'c \<Rightarrow> error + cost" where
  "lookup problem a b =
     (case distances problem a of
        None \<Rightarrow> Inl KeyError
      | Some row \<Rightarrow> (case row b of None \<Rightarrow> Inl KeyError | Some d \<Rightarrow> Inr d))"

definition action_cost :: "'c TSPProblem \<Rightarrow> 'c list \<Rightarrow> 'c \<Rightarrow> 'c list \<Rightarrow> error + cost" where
  "action_cost problem s a s1 =
     (if s = [] then Inl IndexError else lookup problem (last s) a)"

subsection \<open>The permutation generator\<close>

text \<open>
  \<^verbatim>\<open>itertools.permutations(xs)\<close> is library code. Its documented contract is modelled:
  the full-length permutations of the positions of \<open>xs\<close>, emitted in lexicographic order
  of the positions, elements being treated as unique by position and not by value. So the
  permutations whose first element is \<open>xs ! 0\<close> come first, then those starting with
  \<open>xs ! 1\<close>, and so on; the empty input has exactly one permutation, the empty tuple.
\<close>

definition remove_nth :: "nat \<Rightarrow> 'a list \<Rightarrow> 'a list" where
  "remove_nth i xs = take i xs @ drop (Suc i) xs"

function permutations :: "'a list \<Rightarrow> 'a list list" where
  "permutations [] = [[]]"
| "permutations (x # xs) =
     concat (map (\<lambda>i. map ((#) ((x # xs) ! i)) (permutations (remove_nth i (x # xs))))
                 [0..<length (x # xs)])"
  by pat_completeness auto
termination
  by (relation "measure length") (auto simp: remove_nth_def)

subsection \<open>The exhaustive solver\<close>

text \<open>
  \<^verbatim>\<open>sum(problem.distances[path[i]][path[i + 1]] for i in range(len(path) - 1))\<close>:
  the generator is consumed from left to right, each item being looked up and then added
  to the running total, which starts at the integer 0; the first failing subscript or
  addition aborts the sum.
\<close>

fun sum_costs :: "'c TSPProblem \<Rightarrow> 'c list \<Rightarrow> nat list \<Rightarrow> cost \<Rightarrow> error + cost" where
  "sum_costs problem path [] acc = Inr acc"
| "sum_costs problem path (i # is) acc =
     (case lookup problem (path ! i) (path ! (i + 1)) of
        Inl e \<Rightarrow> Inl e
      | Inr d \<Rightarrow>
          (case add_cost acc d of
             Inl e \<Rightarrow> Inl e
           | Inr acc' \<Rightarrow> sum_costs problem path is acc'))"

definition path_cost :: "'c TSPProblem \<Rightarrow> 'c list \<Rightarrow> error + cost" where
  "path_cost problem path = sum_costs problem path [0..<length path - 1] (Num 0)"

text \<open>
  The body of the \<^verbatim>\<open>for perm in permutations(problem.cities)\<close> loop, with the pair
  \<open>(best_path, min_cost)\<close> as the loop state. \<^verbatim>\<open>perm[0]\<close> raises on the empty tuple.
\<close>

fun tsp_loop ::
  "'c TSPProblem \<Rightarrow> 'c list list \<Rightarrow> 'c list option \<times> cost \<Rightarrow> error + ('c list option \<times> cost)"
where
  "tsp_loop problem [] (best_path, min_cost) = Inr (best_path, min_cost)"
| "tsp_loop problem (perm # rest) (best_path, min_cost) =
     (case perm of
        [] \<Rightarrow> Inl IndexError
      | c # _ \<Rightarrow>
          if c \<noteq> initial problem then tsp_loop problem rest (best_path, min_cost)
          else
            (let path = perm @ [initial problem] in
             case path_cost problem path of
               Inl e \<Rightarrow> Inl e
             | Inr cost \<Rightarrow>
                 if cost_less cost min_cost
                 then tsp_loop problem rest (Some path, cost)
                 else tsp_loop problem rest (best_path, min_cost)))"

definition tsp_solver :: "'c TSPProblem \<Rightarrow> error + ('c list option \<times> cost)" where
  "tsp_solver problem =
     tsp_loop problem (permutations (cities problem)) (None, Infinity)"

subsection \<open>The solver with a record of what it does\<close>

text \<open>
  The same loop, with a log added to its state: \<open>passed\<close> receives each permutation that
  gets past \<^verbatim>\<open>if perm[0] != start: continue\<close>, and \<open>priced\<close> each closed tour with its
  cost once \<^verbatim>\<open>sum\<close> has returned it. When the loop ends with an error, the log is what
  had been done until then.
\<close>

record 'c log =
  passed :: "'c list list"
  priced :: "('c list \<times> cost) list"

fun tsp_loop_log ::
  "'c TSPProblem \<Rightarrow> 'c list list \<Rightarrow> 'c list option \<times> cost \<Rightarrow> 'c log \<Rightarrow>
     (error + ('c list option \<times> cost)) \<times> 'c log"
where
  "tsp_loop_log problem [] (best_path, min_cost) lg = (Inr (best_path, min_cost), lg)"
| "tsp_loop_log problem (perm # rest) (best_path, min_cost) lg =
     (case perm of
        [] \<Rightarrow> (Inl IndexError, lg)
      | c # _ \<Rightarrow>
          if c \<noteq> initial problem then tsp_loop_log problem rest (best_path, min_cost) lg
          else
            (let path = perm @ [initial problem];
                 lg1 = lg\<lparr>passed := passed lg @ [perm]\<rparr> in
             case path_cost problem path of
               Inl e \<Rightarrow> (Inl e, lg1)
             | Inr cost \<Rightarrow>
                 (let lg2 = lg1\<lparr>priced := priced lg1 @ [(path, cost)]\<rparr> in
                  if cost_less cost min_cost
                  then tsp_loop_log problem rest (Some path, cost) lg2
                  else tsp_loop_log problem rest (best_path, min_cost) lg2)))"

definition tsp_solver_log ::
  "'c TSPProblem \<Rightarrow> (error + ('c list option \<times> cost)) \<times> 'c log" where
  "tsp_solver_log problem =
     tsp_loop_log problem (permutations (cities problem)) (None, Infinity)
       \<lparr>passed = [], priced = []\<rparr>"

subsection \<open>Notions the properties are stated with\<close>

text \<open>A permutation that gets past the start filter.\<close>

definition passes_start :: "'c \<Rightarrow> 'c list \<Rightarrow> bool" where
  "passes_start start perm = (case perm of [] \<Rightarrow> False | c # _ \<Rightarrow> c = start)"

text \<open>
  The distance table is defined on every ordered pair of distinct cities of the city
  list; nothing is asked of the self-distances.
\<close>

definition fully_defined :: "'c TSPProblem \<Rightarrow> bool" where
  "fully_defined problem =
     list_all (\<lambda>a. list_all (\<lambda>b. a = b \<or> lookup problem a b \<noteq> Inl KeyError)
                 (cities problem)) (cities problem)"

text \<open>The same, with an integer at each of these entries.\<close>

definition integer_entry :: "'c TSPProblem \<Rightarrow> 'c \<Rightarrow> 'c \<Rightarrow> bool" where
  "integer_entry problem a b =
     (case lookup problem a b of Inr (Num d) \<Rightarrow> True | _ \<Rightarrow> False)"

definition integer_table :: "'c TSPProblem \<Rightarrow> bool" where
  "integer_table problem =
     list_all (\<lambda>a. list_all (\<lambda>b. a = b \<or> integer_entry problem a b)
                 (cities problem)) (cities problem)"

subsection \<open>The program's own example\<close>

definition demo_distances :: "string \<rightharpoonup> (string \<rightharpoonup> cost)" where
  "demo_distances =
     [''A'' \<mapsto> [''A'' \<mapsto> Num 0, ''B'' \<mapsto> Num 10, ''C'' \<mapsto> Num 15, ''D'' \<mapsto> Num 20],
      ''B'' \<mapsto> [''A'' \<mapsto> Num 10, ''B'' \<mapsto> Num 0, ''C'' \<mapsto> Num 35, ''D'' \<mapsto> Num 25],
      ''C'' \<mapsto> [''A'' \<mapsto> Num 15, ''B'' \<mapsto> Num 35, ''C'' \<mapsto> Num 0, ''D'' \<mapsto> Num 30],
      ''D'' \<mapsto> [''A'' \<mapsto> Num 20, ''B'' \<mapsto> Num 25, ''C'' \<mapsto> Num 30, ''D'' \<mapsto> Num 0]]"

definition demo :: "string TSPProblem" where
  "demo = \<lparr>initial = ''A'', goal = None, cities = [''A'', ''B'', ''C'', ''D''],
           distances = demo_distances\<rparr>"

text \<open>Further instances: no city at all, a start city outside the list, one city.\<close>

definition no_cities :: "string TSPProblem" where
  "no_cities = \<lparr>initial = ''A'', goal = None, cities = [], distances = Map.empty\<rparr>"

definition foreign_start :: "string TSPProblem" where
  "foreign_start = \<lparr>initial = ''Z'', goal = None, cities = [''A'', ''B''],
                    distances = Map.empty\<rparr>"



text \<open>
  Two cities with every entry between them defined, where every closed tour sums to
  \<^verbatim>\<open>inf\<close>: one entry is \<^verbatim>\<open>math.inf\<close> in \<open>blocked\<close>, both are in \<open>walled\<close>.
\<close>

definition blocked :: "string TSPProblem" where
  "blocked = \<lparr>initial = ''A'', goal = None, cities = [''A'', ''B''],
              distances = [''A'' \<mapsto> [''B'' \<mapsto> Infinity], ''B'' \<mapsto> [''A'' \<mapsto> Num 1]]\<rparr>"


text \<open>Three distinct cities and an empty distance table.\<close>

definition unmapped :: "string TSPProblem" where
  "unmapped = \<lparr>initial = ''A'', goal = None, cities = [''A'', ''B'', ''C''],
               distances = Map.empty\<rparr>"

section \<open>Properties of the permutation generator\<close>

lemma length_remove_nth: "i < length xs \<Longrightarrow> length (remove_nth i xs) = length xs - 1"
  by (simp add: remove_nth_def)

lemma mset_remove_nth: "i < length xs \<Longrightarrow> add_mset (xs ! i) (mset (remove_nth i xs)) = mset xs"
proof -
  assume "i < length xs"
  then have "xs = take i xs @ xs ! i # drop (Suc i) xs"
    by (rule id_take_nth_drop)
  then have "mset xs = mset (take i xs @ xs ! i # drop (Suc i) xs)"
    by simp
  then show ?thesis
    by (simp add: remove_nth_def)
qed

lemma permutations_unfold:
  "xs \<noteq> [] \<Longrightarrow>
   permutations xs =
     concat (map (\<lambda>i. map ((#) (xs ! i)) (permutations (remove_nth i xs))) [0..<length xs])"
  by (cases xs) simp_all

lemma in_permutations_iff: "p \<in> set (permutations xs) \<longleftrightarrow> mset p = mset xs"
proof (induction xs arbitrary: p rule: permutations.induct)
  case 1
  show ?case by simp
next
  case (2 x xs)
  let ?ys = "x # xs"
  have IH: "\<And>i q. i < length ?ys \<Longrightarrow>
      q \<in> set (permutations (remove_nth i ?ys)) \<longleftrightarrow> mset q = mset (remove_nth i ?ys)"
    using "2.IH" by (simp del: upt_Suc)
  have unf: "p \<in> set (permutations ?ys) \<longleftrightarrow>
      (\<exists>i<length ?ys. \<exists>q \<in> set (permutations (remove_nth i ?ys)). p = ?ys ! i # q)"
    by (subst permutations_unfold) (auto simp del: permutations.simps upt_Suc)
  show ?case
  proof
    assume "p \<in> set (permutations ?ys)"
    then obtain i q where i: "i < length ?ys" and q: "q \<in> set (permutations (remove_nth i ?ys))"
      and p: "p = ?ys ! i # q"
      using unf by blast
    from q IH[OF i] have "mset q = mset (remove_nth i ?ys)" by blast
    with p mset_remove_nth[OF i] show "mset p = mset ?ys" by simp
  next
    assume m: "mset p = mset ?ys"
    then have "p \<noteq> []" by auto
    then obtain a q where p: "p = a # q" by (cases p) auto
    with m have "a \<in> set ?ys"
      by (metis list.set_intros(1) mset_eq_setD)
    then obtain i where i: "i < length ?ys" and a: "?ys ! i = a"
      by (meson in_set_conv_nth)
    from m p have "add_mset a (mset q) = add_mset (?ys ! i) (mset (remove_nth i ?ys))"
      using mset_remove_nth[OF i] by simp
    with a have "mset q = mset (remove_nth i ?ys)" by simp
    with IH[OF i] have "q \<in> set (permutations (remove_nth i ?ys))" by blast
    with i a p unf show "p \<in> set (permutations ?ys)" by blast
  qed
qed

lemma length_permutations: "length (permutations xs) = fact (length xs)"
proof (induction xs rule: permutations.induct)
  case 1
  show ?case by simp
next
  case (2 x xs)
  let ?ys = "x # xs"
  have IH: "\<And>i. i < length ?ys \<Longrightarrow>
      length (permutations (remove_nth i ?ys)) = fact (length xs)"
    using "2.IH" by (simp add: length_remove_nth del: upt_Suc)
  have "length (permutations ?ys) =
      sum_list (map (\<lambda>i. length (permutations (remove_nth i ?ys))) [0..<length ?ys])"
    by (subst permutations_unfold) (simp_all add: length_concat comp_def del: permutations.simps)
  also have "\<dots> = sum_list (map (\<lambda>i. fact (length xs)) [0..<length ?ys])"
    by (rule arg_cong[where f=sum_list], rule map_cong) (use IH in auto)
  also have "\<dots> = fact (length ?ys)"
    by (simp add: sum_list_triv del: upt_Suc)
  finally show ?case .
qed

lemma permutations_nonempty: "[] \<notin> set (permutations xs) \<longleftrightarrow> xs \<noteq> []"
  by (auto simp: in_permutations_iff)

lemma filter_passes_block:
  "filter (passes_start s) (map ((#) a) ps) = (if a = s then map ((#) a) ps else [])"
  by (induction ps) (auto simp: passes_start_def)

lemma sum_list_count:
  "sum_list (map (\<lambda>a. if a = s then k else 0) xs) = count_list xs s * (k::nat)"
  by (induction xs) auto

lemma count_passes_start:
  "length (filter (passes_start s) (permutations xs)) = count_list xs s * fact (length xs - 1)"
proof (cases xs)
  case Nil
  then show ?thesis by (simp add: passes_start_def)
next
  case (Cons y ys)
  then have ne: "xs \<noteq> []" by simp
  have "length (filter (passes_start s) (permutations xs)) =
      sum_list (map (\<lambda>i. length (filter (passes_start s)
                     (map ((#) (xs ! i)) (permutations (remove_nth i xs))))) [0..<length xs])"
    by (subst permutations_unfold[OF ne]) (simp add: filter_concat length_concat comp_def)
  also have "\<dots> = sum_list (map (\<lambda>i. if xs ! i = s then fact (length xs - 1) else 0)
                              [0..<length xs])"
    by (rule arg_cong[where f=sum_list], rule map_cong)
       (auto simp: filter_passes_block length_permutations length_remove_nth)
  also have "\<dots> = sum_list (map ((\<lambda>a. if a = s then fact (length xs - 1) else 0) \<circ> (!) xs)
                              [0..<length xs])"
    by (simp add: comp_def)
  also have "\<dots> = sum_list (map (\<lambda>a. if a = s then fact (length xs - 1) else 0) xs)"
    by (simp only: map_map[symmetric] map_nth)
  also have "\<dots> = count_list xs s * fact (length xs - 1)"
    by (rule sum_list_count)
  finally show ?thesis .
qed

lemma distinct_remove_nth: "distinct xs \<Longrightarrow> distinct (remove_nth i xs)"
proof -
  assume d: "distinct xs"
  have "distinct (take i xs @ drop i xs)" using d by simp
  then have "distinct (take i xs)" "distinct (drop i xs)" "set (take i xs) \<inter> set (drop i xs) = {}"
    by (simp_all only: distinct_append) 
  moreover have "set (drop (Suc i) xs) \<subseteq> set (drop i xs)"
    by (simp add: set_drop_subset_set_drop)
  moreover have "distinct (drop (Suc i) xs)" using d by simp
  ultimately show ?thesis unfolding remove_nth_def by (simp only: distinct_append) blast
qed

lemma distinct_permutations: "distinct xs \<Longrightarrow> distinct (permutations xs)"
proof (induction xs rule: permutations.induct)
  case 1
  show ?case by simp
next
  case (2 x xs)
  let ?ys = "x # xs"
  let ?block = "\<lambda>i. map ((#) (?ys ! i)) (permutations (remove_nth i ?ys))"
  have d: "distinct ?ys" by fact
  have IH: "\<And>i. i < length ?ys \<Longrightarrow> distinct (permutations (remove_nth i ?ys))"
    using "2.IH" d by (simp add: distinct_remove_nth del: upt_Suc distinct.simps)
  have ne: "?block i \<noteq> []" for i
    using length_permutations[of "remove_nth i ?ys"] by (auto simp del: permutations.simps)
  have hd_block: "q \<in> set (?block i) \<Longrightarrow> hd q = ?ys ! i" for q i
    by auto
  have inj: "i = j" if "i < length ?ys" "j < length ?ys" "set (?block i) \<inter> set (?block j) \<noteq> {}" for i j
  proof -
    from that(3) obtain q where "q \<in> set (?block i)" "q \<in> set (?block j)" by blast
    then have "?ys ! i = ?ys ! j" using hd_block by metis
    with d that(1,2) show ?thesis by (simp only: nth_eq_iff_index_eq)
  qed
  have "distinct (concat (map ?block [0..<length ?ys]))"
  proof (rule distinct_concat)
    show "distinct (map ?block [0..<length ?ys])"
    proof (subst distinct_map, intro conjI inj_onI)
      show "distinct [0..<length ?ys]" by simp
    next
      fix i j assume "i \<in> set [0..<length ?ys]" "j \<in> set [0..<length ?ys]" "?block i = ?block j"
      then show "i = j" using inj[of i j] ne[of i] by (auto simp del: upt_Suc permutations.simps)
    qed
  next
    fix b assume "b \<in> set (map ?block [0..<length ?ys])"
    then obtain i where "i < length ?ys" "b = ?block i" by (auto simp del: upt_Suc permutations.simps)
    then show "distinct b" using IH by (simp add: distinct_map del: permutations.simps)
  next
    fix b c assume "b \<in> set (map ?block [0..<length ?ys])" "c \<in> set (map ?block [0..<length ?ys])" "b \<noteq> c"
    then obtain i j where "i < length ?ys" "b = ?block i" "j < length ?ys" "c = ?block j"
      by (auto simp del: upt_Suc permutations.simps)
    then show "set b \<inter> set c = {}" using inj[of i j] \<open>b \<noteq> c\<close> by blast
  qed
  then show ?case by (subst permutations_unfold) simp_all
qed

section \<open>Properties of the cost of a path\<close>

lemma lookup_defined_iff:
  "lookup problem a b \<noteq> Inl KeyError \<longleftrightarrow>
     (\<exists>row d. distances problem a = Some row \<and> row b = Some d)"
  by (auto simp: lookup_def split: option.splits)

lemma lookup_Inr_iff:
  "lookup problem a b = Inr d \<longleftrightarrow>
     (\<exists>row. distances problem a = Some row \<and> row b = Some d)"
  by (auto simp: lookup_def split: option.splits)

lemma integer_entry_iff:
  "integer_entry problem a b \<longleftrightarrow>
     (\<exists>row d. distances problem a = Some row \<and> row b = Some (Num d))"
  by (auto simp: integer_entry_def lookup_def split: option.splits cost.splits)

lemma add_cost_Num_iff:
  "add_cost acc d = Inr (Num c) \<longleftrightarrow> (\<exists>a b. acc = Num a \<and> d = Num b \<and> c = a + b)"
  by (cases acc; cases d) auto

lemma sum_costs_Infinity: "sum_costs problem path is Infinity \<noteq> Inr (Num c)"
proof (induction "is")
  case Nil
  show ?case by simp
next
  case (Cons i "is")
  show ?case
  proof (cases "lookup problem (path ! i) (path ! (i + 1))")
    case (Inl e)
    then show ?thesis by simp
  next
    case (Inr d)
    with Cons.IH show ?thesis
      by (cases d) auto
  qed
qed

lemma sum_costs_Num:
  "sum_costs problem path is (Num a) = Inr (Num c) \<longleftrightarrow>
     (\<forall>i \<in> set is. \<exists>row d. distances problem (path ! i) = Some row \<and>
                              row (path ! (i + 1)) = Some (Num d)) \<and>
     c = a + sum_list (map (\<lambda>i. int_of (the (the (distances problem (path ! i)) (path ! (i + 1))))) is)"
proof (induction "is" arbitrary: a)
  case Nil
  show ?case by auto
next
  case (Cons i "is")
  show ?case
  proof (cases "lookup problem (path ! i) (path ! (i + 1))")
    case (Inl e)
    then have "\<not> (\<exists>row d. distances problem (path ! i) = Some row \<and> row (path ! (i + 1)) = Some d)"
      by (auto simp: lookup_def split: option.splits)
    with Inl show ?thesis by auto
  next
    case (Inr d)
    then obtain row where row: "distances problem (path ! i) = Some row" "row (path ! (i + 1)) = Some d"
      by (auto simp: lookup_Inr_iff)
    show ?thesis
    proof (cases d)
      case (Num b)
      with Inr row Cons.IH[of "a + b"] show ?thesis
        by auto
    next
      case Infinity
      with Inr row show ?thesis
        by (auto simp: sum_costs_Infinity)
    qed
  qed
qed

lemma path_cost_Num:
  "path_cost problem path = Inr (Num c) \<longleftrightarrow>
     (\<forall>i < length path - 1. \<exists>row d. distances problem (path ! i) = Some row \<and>
                                     row (path ! (i + 1)) = Some (Num d)) \<and>
     c = (\<Sum>i < length path - 1. int_of (the (the (distances problem (path ! i)) (path ! (i + 1)))))"
  unfolding path_cost_def sum_costs_Num
  by (auto simp: interv_sum_list_conv_sum_set_nat atLeast0LessThan)

lemma path_cost_integer:
  assumes "\<forall>i < length path - 1. integer_entry problem (path ! i) (path ! (i + 1))"
  shows "\<exists>c. path_cost problem path = Inr (Num c)"
proof -
  have "\<exists>row d. distances problem (path ! i) = Some row \<and> row (path ! (i + 1)) = Some (Num d)"
    if "i < length path - 1" for i
    using assms that by (simp only: integer_entry_iff)
  then show ?thesis by (simp add: path_cost_Num)
qed

section \<open>The loop of the solver\<close>

lemma cost_less_trans: "cost_less a b \<Longrightarrow> cost_less b c \<Longrightarrow> cost_less a c"
  by (cases a; cases b; cases c) auto

lemma cost_less_not: "cost_less a mn \<Longrightarrow> \<not> cost_less b mn \<Longrightarrow> cost_less a b"
  by (cases a; cases b; cases mn) auto

lemma cost_less_asym: "cost_less a b \<Longrightarrow> \<not> cost_less b a"
  by (cases a; cases b) auto

lemma cost_less_Num: "cost_less a b \<Longrightarrow> \<exists>k. a = Num k"
  by (cases a) auto

lemma tsp_loop_Inr:
  assumes "tsp_loop problem perms (best, mn) = Inr (best', mn')"
  shows "(best' = best \<and> mn' = mn \<and>
          (\<forall>r \<in> set perms. passes_start (initial problem) r \<longrightarrow>
             (\<exists>d. path_cost problem (r @ [initial problem]) = Inr d \<and> \<not> cost_less d mn)))
       \<or> (\<exists>pre q post c.
            perms = pre @ q # post \<and> passes_start (initial problem) q \<and>
            path_cost problem (q @ [initial problem]) = Inr c \<and>
            best' = Some (q @ [initial problem]) \<and> mn' = c \<and> cost_less c mn \<and>
            (\<forall>r \<in> set pre. passes_start (initial problem) r \<longrightarrow>
               (\<exists>d. path_cost problem (r @ [initial problem]) = Inr d \<and> cost_less c d)) \<and>
            (\<forall>r \<in> set post. passes_start (initial problem) r \<longrightarrow>
               (\<exists>d. path_cost problem (r @ [initial problem]) = Inr d \<and> \<not> cost_less d c)))"
  (is "?A perms best mn \<or> ?B perms mn")
  using assms
proof (induction perms arbitrary: best mn)
  case Nil
  then show ?case by simp
next
  case (Cons perm rest)
  let ?s = "initial problem"
  from Cons.prems obtain c0 tl where perm: "perm = c0 # tl"
    by (cases perm) auto
  show ?case
  proof (cases "c0 = ?s")
    case False
    then have np: "\<not> passes_start ?s perm"
      by (simp add: passes_start_def perm)
    from False Cons.prems perm have "tsp_loop problem rest (best, mn) = Inr (best', mn')"
      by simp
    from Cons.IH[OF this] show ?thesis
    proof
      assume "?A rest best mn"
      with np have "?A (perm # rest) best mn" by simp
      then show ?thesis ..
    next
      assume "?B rest mn"
      then obtain pre q post c where
        "rest = pre @ q # post" "passes_start ?s q" "path_cost problem (q @ [?s]) = Inr c"
        "best' = Some (q @ [?s])" "mn' = c" "cost_less c mn"
        "\<forall>r \<in> set pre. passes_start ?s r \<longrightarrow>
           (\<exists>d. path_cost problem (r @ [?s]) = Inr d \<and> cost_less c d)"
        "\<forall>r \<in> set post. passes_start ?s r \<longrightarrow>
           (\<exists>d. path_cost problem (r @ [?s]) = Inr d \<and> \<not> cost_less d c)"
        by blast
      with np have "perm # rest = (perm # pre) @ q # post \<and> passes_start ?s q \<and>
          path_cost problem (q @ [?s]) = Inr c \<and> best' = Some (q @ [?s]) \<and> mn' = c \<and>
          cost_less c mn \<and>
          (\<forall>r \<in> set (perm # pre). passes_start ?s r \<longrightarrow>
             (\<exists>d. path_cost problem (r @ [?s]) = Inr d \<and> cost_less c d)) \<and>
          (\<forall>r \<in> set post. passes_start ?s r \<longrightarrow>
             (\<exists>d. path_cost problem (r @ [?s]) = Inr d \<and> \<not> cost_less d c))"
        by simp
      then have "?B (perm # rest) mn" by blast
      then show ?thesis ..
    qed
  next
    case True
    then have ps: "passes_start ?s perm"
      by (simp add: passes_start_def perm)
    from True Cons.prems perm obtain c1 where c1: "path_cost problem (perm @ [?s]) = Inr c1"
      by (cases "path_cost problem (perm @ [?s])") auto
    show ?thesis
    proof (cases "cost_less c1 mn")
      case less: True
      with True Cons.prems perm c1
      have "tsp_loop problem rest (Some (perm @ [?s]), c1) = Inr (best', mn')"
        by simp
      from Cons.IH[OF this] show ?thesis
      proof
        assume "?A rest (Some (perm @ [?s])) c1"
        with ps c1 less have "perm # rest = [] @ perm # rest \<and> passes_start ?s perm \<and>
          path_cost problem (perm @ [?s]) = Inr c1 \<and> best' = Some (perm @ [?s]) \<and> mn' = c1 \<and>
          cost_less c1 mn \<and>
          (\<forall>r \<in> set []. passes_start ?s r \<longrightarrow>
             (\<exists>d. path_cost problem (r @ [?s]) = Inr d \<and> cost_less c1 d)) \<and>
          (\<forall>r \<in> set rest. passes_start ?s r \<longrightarrow>
             (\<exists>d. path_cost problem (r @ [?s]) = Inr d \<and> \<not> cost_less d c1))"
          by auto
        then have "?B (perm # rest) mn" by blast
        then show ?thesis ..
      next
        assume "?B rest c1"
        then obtain pre q post c where
          "rest = pre @ q # post" "passes_start ?s q" "path_cost problem (q @ [?s]) = Inr c"
          "best' = Some (q @ [?s])" "mn' = c" and lt: "cost_less c c1" and
          "\<forall>r \<in> set pre. passes_start ?s r \<longrightarrow>
             (\<exists>d. path_cost problem (r @ [?s]) = Inr d \<and> cost_less c d)"
          "\<forall>r \<in> set post. passes_start ?s r \<longrightarrow>
             (\<exists>d. path_cost problem (r @ [?s]) = Inr d \<and> \<not> cost_less d c)"
          by blast
        moreover from lt less have "cost_less c mn" by (rule cost_less_trans)
        ultimately have "perm # rest = (perm # pre) @ q # post \<and> passes_start ?s q \<and>
          path_cost problem (q @ [?s]) = Inr c \<and> best' = Some (q @ [?s]) \<and> mn' = c \<and>
          cost_less c mn \<and>
          (\<forall>r \<in> set (perm # pre). passes_start ?s r \<longrightarrow>
             (\<exists>d. path_cost problem (r @ [?s]) = Inr d \<and> cost_less c d)) \<and>
          (\<forall>r \<in> set post. passes_start ?s r \<longrightarrow>
             (\<exists>d. path_cost problem (r @ [?s]) = Inr d \<and> \<not> cost_less d c))"
          using c1 by simp
        then have "?B (perm # rest) mn" by blast
        then show ?thesis ..
      qed
    next
      case nless: False
      with True Cons.prems perm c1
      have "tsp_loop problem rest (best, mn) = Inr (best', mn')"
        by simp
      from Cons.IH[OF this] show ?thesis
      proof
        assume "?A rest best mn"
        with c1 nless have "?A (perm # rest) best mn" by simp
        then show ?thesis ..
      next
        assume "?B rest mn"
        then obtain pre q post c where
          "rest = pre @ q # post" "passes_start ?s q" "path_cost problem (q @ [?s]) = Inr c"
          "best' = Some (q @ [?s])" "mn' = c" and lt: "cost_less c mn" and
          "\<forall>r \<in> set pre. passes_start ?s r \<longrightarrow>
             (\<exists>d. path_cost problem (r @ [?s]) = Inr d \<and> cost_less c d)"
          "\<forall>r \<in> set post. passes_start ?s r \<longrightarrow>
             (\<exists>d. path_cost problem (r @ [?s]) = Inr d \<and> \<not> cost_less d c)"
          by blast
        moreover from lt nless have "cost_less c c1" by (rule cost_less_not)
        ultimately have "perm # rest = (perm # pre) @ q # post \<and> passes_start ?s q \<and>
          path_cost problem (q @ [?s]) = Inr c \<and> best' = Some (q @ [?s]) \<and> mn' = c \<and>
          cost_less c mn \<and>
          (\<forall>r \<in> set (perm # pre). passes_start ?s r \<longrightarrow>
             (\<exists>d. path_cost problem (r @ [?s]) = Inr d \<and> cost_less c d)) \<and>
          (\<forall>r \<in> set post. passes_start ?s r \<longrightarrow>
             (\<exists>d. path_cost problem (r @ [?s]) = Inr d \<and> \<not> cost_less d c))"
          using c1 by simp
        then have "?B (perm # rest) mn" by blast
        then show ?thesis ..
      qed
    qed
  qed
qed

lemma tsp_loop_total:
  assumes "[] \<notin> set perms"
    and "\<forall>r \<in> set perms. passes_start (initial problem) r \<longrightarrow>
           (\<exists>d. path_cost problem (r @ [initial problem]) = Inr d)"
  shows "\<exists>res. tsp_loop problem perms acc = Inr res"
  using assms
proof (induction perms arbitrary: acc)
  case Nil
  show ?case by (cases acc) simp
next
  case (Cons perm rest)
  obtain best mn where acc: "acc = (best, mn)" by (cases acc)
  from Cons.prems obtain c0 tl where perm: "perm = c0 # tl" by (cases perm) auto
  have IH: "\<exists>res. tsp_loop problem rest acc' = Inr res" for acc'
    using Cons.IH Cons.prems by simp
  show ?case
  proof (cases "c0 = initial problem")
    case False
    with IH[of acc] show ?thesis by (simp add: acc perm)
  next
    case True
    then have "passes_start (initial problem) perm" by (simp add: passes_start_def perm)
    with Cons.prems obtain d where "path_cost problem (perm @ [initial problem]) = Inr d"
      by auto
    with True IH[of acc] IH[of "(Some (perm @ [initial problem]), d)"] show ?thesis
      by (simp add: acc perm)
  qed
qed

lemma passes_start_iff: "passes_start s q \<longleftrightarrow> q \<noteq> [] \<and> hd q = s"
  by (cases q) (auto simp: passes_start_def)

lemma tsp_loop_skip:
  "\<forall>r \<in> set perms. r \<noteq> [] \<and> \<not> passes_start (initial problem) r \<Longrightarrow>
   tsp_loop problem perms acc = Inr acc"
proof (induction perms)
  case Nil
  show ?case by (cases acc) simp
next
  case (Cons perm rest)
  then show ?case
    by (cases acc; cases perm) (auto simp: passes_start_def)
qed

lemma start_permutation_exists:
  assumes "s \<in> set xs"
  shows "\<exists>q \<in> set (permutations xs). passes_start s q"
proof -
  have "mset (s # remove1 s xs) = mset xs"
    using assms by simp
  then have "s # remove1 s xs \<in> set (permutations xs)"
    by (simp only: in_permutations_iff)
  moreover have "passes_start s (s # remove1 s xs)"
    by (simp add: passes_start_def)
  ultimately show ?thesis ..
qed

lemma closed_tour_steps:
  assumes "distinct q" and "2 \<le> length q" and "hd q = s" and "i < length q"
  shows "(q @ [s]) ! i \<in> set q \<and> (q @ [s]) ! (i + 1) \<in> set q \<and>
         (q @ [s]) ! i \<noteq> (q @ [s]) ! (i + 1)"
proof (cases "i + 1 < length q")
  case True
  with assms(1,4) have "q ! i \<noteq> q ! (i + 1)"
    by (simp add: nth_eq_iff_index_eq)
  with True assms(4) show ?thesis
    by (simp add: nth_append)
next
  case False
  with assms(4) have i: "i + 1 = length q" by simp
  from assms(2) have ne: "q \<noteq> []" by auto
  with assms(3) have s: "s = q ! 0" by (simp add: hd_conv_nth)
  from i assms(2) have "i \<noteq> 0" by simp
  moreover from ne have "0 < length q" by simp
  ultimately have "q ! i \<noteq> q ! 0"
    using nth_eq_iff_index_eq[OF assms(1,4), of 0] by simp
  with i assms(4) s ne show ?thesis
    by (simp add: nth_append)
qed

lemma candidate_cost_integer:
  assumes "distinct (cities problem)" and "2 \<le> length (cities problem)"
    and "integer_table problem"
    and "mset q = mset (cities problem)" and "passes_start (initial problem) q"
  shows "\<exists>d. path_cost problem (q @ [initial problem]) = Inr (Num d)"
proof (rule path_cost_integer, intro allI impI)
  fix i assume "i < length (q @ [initial problem]) - 1"
  then have i: "i < length q" by simp
  from assms(4) have len: "length q = length (cities problem)"
    by (rule mset_eq_length)
  from assms(4) have set: "set q = set (cities problem)"
    by (rule mset_eq_setD)
  from assms(1,4) have dq: "distinct q"
    by (metis mset_eq_imp_distinct_iff)
  from assms(5) have "hd q = initial problem"
    by (simp add: passes_start_iff)
  from closed_tour_steps[OF dq _ this i] assms(2) len set
  have "(q @ [initial problem]) ! i \<in> set (cities problem)"
    "(q @ [initial problem]) ! (i + 1) \<in> set (cities problem)"
    "(q @ [initial problem]) ! i \<noteq> (q @ [initial problem]) ! (i + 1)"
    by simp_all
  with assms(3) show "integer_entry problem ((q @ [initial problem]) ! i)
      ((q @ [initial problem]) ! (i + 1))"
    unfolding integer_table_def list_all_iff by blast
qed

lemma integer_table_fully_defined: "integer_table problem \<Longrightarrow> fully_defined problem"
  unfolding integer_table_def fully_defined_def list_all_iff
  by (auto simp: integer_entry_def split: sum.splits)


lemma tsp_solver_least:
  assumes "tsp_solver problem = Inr (best, mn)"
    and "mset r = mset (cities problem)" and "passes_start (initial problem) r"
  shows "\<exists>d. path_cost problem (r @ [initial problem]) = Inr d \<and> \<not> cost_less d mn"
proof -
  let ?s = "initial problem"
  from assms(1) have
    res: "tsp_loop problem (permutations (cities problem)) (None, Infinity) = Inr (best, mn)"
    by (simp only: tsp_solver_def)
  from assms(2) have r: "r \<in> set (permutations (cities problem))"
    by (simp only: in_permutations_iff)
  from tsp_loop_Inr[OF res] show ?thesis
  proof
    assume "best = None \<and> mn = Infinity \<and>
      (\<forall>r \<in> set (permutations (cities problem)). passes_start ?s r \<longrightarrow>
         (\<exists>d. path_cost problem (r @ [?s]) = Inr d \<and> \<not> cost_less d Infinity))"
    with r assms(3) show ?thesis by blast
  next
    assume "\<exists>pre q post c.
            permutations (cities problem) = pre @ q # post \<and> passes_start ?s q \<and>
            path_cost problem (q @ [?s]) = Inr c \<and>
            best = Some (q @ [?s]) \<and> mn = c \<and> cost_less c Infinity \<and>
            (\<forall>r \<in> set pre. passes_start ?s r \<longrightarrow>
               (\<exists>d. path_cost problem (r @ [?s]) = Inr d \<and> cost_less c d)) \<and>
            (\<forall>r \<in> set post. passes_start ?s r \<longrightarrow>
               (\<exists>d. path_cost problem (r @ [?s]) = Inr d \<and> \<not> cost_less d c))"
    then obtain pre q post c where
      split: "permutations (cities problem) = pre @ q # post"
      and c: "path_cost problem (q @ [?s]) = Inr c" and mn: "mn = c"
      and pre: "\<forall>r \<in> set pre. passes_start ?s r \<longrightarrow>
               (\<exists>d. path_cost problem (r @ [?s]) = Inr d \<and> cost_less c d)"
      and post: "\<forall>r \<in> set post. passes_start ?s r \<longrightarrow>
               (\<exists>d. path_cost problem (r @ [?s]) = Inr d \<and> \<not> cost_less d c)"
      by blast
    from r split consider "r \<in> set pre" | "r = q" | "r \<in> set post" by auto
    then show ?thesis
    proof cases
      case 1
      with pre assms(3) obtain d where "path_cost problem (r @ [?s]) = Inr d" "cost_less c d"
        by blast
      then show ?thesis using mn cost_less_asym by blast
    next
      case 2
      with c mn show ?thesis using cost_less_asym by blast
    next
      case 3
      with post assms(3) mn show ?thesis by blast
    qed
  qed
qed

lemma tsp_solver_integer:
  assumes "distinct (cities problem)" and "2 \<le> length (cities problem)"
    and "initial problem \<in> set (cities problem)" and "integer_table problem"
  shows "\<exists>tour c. tsp_solver problem = Inr (Some tour, Num c)"
proof -
  let ?s = "initial problem" and ?perms = "permutations (cities problem)"
  have int: "\<exists>d. path_cost problem (r @ [?s]) = Inr (Num d)"
    if "r \<in> set ?perms" "passes_start ?s r" for r
    using candidate_cost_integer[OF assms(1,2,4) _ that(2)] that(1)
    by (simp add: in_permutations_iff)
  then have defined: "\<forall>r \<in> set ?perms. passes_start ?s r \<longrightarrow>
      (\<exists>d. path_cost problem (r @ [?s]) = Inr d)"
    by blast
  from assms(2) have "cities problem \<noteq> []" by auto
  then have "[] \<notin> set ?perms" by (simp add: permutations_nonempty)
  from tsp_loop_total[OF this defined, of "(None, Infinity)"]
  obtain best mn where res: "tsp_solver problem = Inr (best, mn)"
    by (auto simp: tsp_solver_def)
  from start_permutation_exists[OF assms(3)]
  obtain q0 where q0: "q0 \<in> set ?perms" "passes_start ?s q0" by blast
  then have m0: "mset q0 = mset (cities problem)" by (simp only: in_permutations_iff)
  from int[OF q0] obtain d0 where d0: "path_cost problem (q0 @ [?s]) = Inr (Num d0)" ..
  from tsp_solver_least[OF res m0 q0(2)] d0 have "\<not> cost_less (Num d0) mn" by simp
  then have "mn \<noteq> Infinity" by auto
  then obtain c where mn: "mn = Num c" by (cases mn) auto
  have "best \<noteq> None"
  proof
    assume "best = None"
    with res have "tsp_loop problem ?perms (None, Infinity) = Inr (None, mn)"
      by (simp add: tsp_solver_def)
    from tsp_loop_Inr[OF this] mn show False by auto
  qed
  with res mn show ?thesis by auto
qed

lemma tsp_loop_log_fst: "fst (tsp_loop_log problem perms st lg) = tsp_loop problem perms st"
proof (induction perms arbitrary: st lg)
  case Nil
  show ?case by (cases st) simp
next
  case (Cons perm rest)
  obtain best mn where st: "st = (best, mn)" by (cases st)
  show ?case
    by (cases perm) (simp_all add: st Let_def Cons.IH split: sum.splits)
qed

lemma tsp_loop_log_Inr:
  assumes "tsp_loop_log problem perms st lg = (Inr res, lg')"
  shows "passed lg' = passed lg @ filter (passes_start (initial problem)) perms \<and>
         map fst (priced lg') =
           map fst (priced lg) @
           map (\<lambda>perm. perm @ [initial problem]) (filter (passes_start (initial problem)) perms)"
  using assms
proof (induction perms arbitrary: st lg)
  case Nil
  then show ?case by (cases st) auto
next
  case (Cons perm rest)
  obtain best mn where st: "st = (best, mn)" by (cases st)
  from Cons.prems obtain c0 tl where perm: "perm = c0 # tl"
    by (cases perm) (auto simp: st)
  have ps: "passes_start (initial problem) (x # xs) \<longleftrightarrow> x = initial problem" for x xs
    by (simp add: passes_start_def)
  show ?case
  proof (cases "c0 = initial problem")
    case False
    with Cons.prems have "tsp_loop_log problem rest (best, mn) lg = (Inr res, lg')"
      by (simp add: st perm)
    from Cons.IH[OF this] False show ?thesis by (simp add: perm ps)
  next
    case True
    let ?path = "perm @ [initial problem]"
    let ?lg1 = "lg\<lparr>passed := passed lg @ [perm]\<rparr>"
    from True Cons.prems obtain c where c: "path_cost problem ?path = Inr c"
      by (cases "path_cost problem ?path") (auto simp: st perm Let_def)
    let ?lg2 = "?lg1\<lparr>priced := priced ?lg1 @ [(?path, c)]\<rparr>"
    from True Cons.prems c obtain st' where
      "tsp_loop_log problem rest st' ?lg2 = (Inr res, lg')"
      by (auto simp: st perm Let_def split: if_splits)
    from Cons.IH[OF this] True show ?thesis by (simp add: perm ps)
  qed
qed

section \<open>The claims\<close>

text \<open>
  Claim C1 (minimality). Take a problem with at least two distinct cities and a start city
  from the city list. Whenever the solver returns a cost, every closed tour
  \<open>r @ [start]\<close> built from a permutation \<open>r\<close> of the cities that begins with the start
  city has a cost, and that cost is not below the returned one. When the table holds an
  integer at every ordered pair of distinct cities, the solver does return a tour with an
  integer cost \<open>c\<close>, and each such closed tour costs an integer \<open>d\<close> with \<open>c \<le> d\<close>.
  The permutations are all lists with the multiset of the city list, independently of the
  generator.
\<close>

theorem tsp_solver_minimal:
  assumes "distinct (cities problem)" and "2 \<le> length (cities problem)"
    and "initial problem \<in> set (cities problem)"
  shows "(integer_table problem \<longrightarrow>
           (\<exists>tour c. tsp_solver problem = Inr (Some tour, Num c) \<and>
              (\<forall>r. mset r = mset (cities problem) \<and> hd r = initial problem \<longrightarrow>
                 (\<exists>d. path_cost problem (r @ [initial problem]) = Inr (Num d) \<and> c \<le> d)))) \<and>
         (\<forall>best mn. tsp_solver problem = Inr (best, mn) \<longrightarrow>
            (\<forall>r. mset r = mset (cities problem) \<and> hd r = initial problem \<longrightarrow>
               (\<exists>d. path_cost problem (r @ [initial problem]) = Inr d \<and> \<not> cost_less d mn)))"
proof (intro conjI impI allI)
  have passes: "passes_start (initial problem) r"
    if "mset r = mset (cities problem)" "hd r = initial problem" for r
  proof -
    from that(1) assms(2) have "r \<noteq> []" by auto
    with that(2) show ?thesis by (simp add: passes_start_iff)
  qed
  {
    fix best mn r
    assume res: "tsp_solver problem = Inr (best, mn)"
      and r: "mset r = mset (cities problem) \<and> hd r = initial problem"
    from r passes have "passes_start (initial problem) r" by blast
    with res r show "\<exists>d. path_cost problem (r @ [initial problem]) = Inr d \<and> \<not> cost_less d mn"
      by (blast intro: tsp_solver_least)
  }
  assume int: "integer_table problem"
  from tsp_solver_integer[OF assms int] obtain tour c where
    res: "tsp_solver problem = Inr (Some tour, Num c)" by blast
  have "\<exists>d. path_cost problem (r @ [initial problem]) = Inr (Num d) \<and> c \<le> d"
    if r: "mset r = mset (cities problem)" "hd r = initial problem" for r
  proof -
    from r passes have p: "passes_start (initial problem) r" by blast
    from candidate_cost_integer[OF assms(1,2) int r(1) p] obtain d where
      d: "path_cost problem (r @ [initial problem]) = Inr (Num d)" ..
    from tsp_solver_least[OF res r(1) p] d have "\<not> cost_less (Num d) (Num c)" by simp
    with d show ?thesis by simp
  qed
  with res show "\<exists>tour c. tsp_solver problem = Inr (Some tour, Num c) \<and>
      (\<forall>r. mset r = mset (cities problem) \<and> hd r = initial problem \<longrightarrow>
         (\<exists>d. path_cost problem (r @ [initial problem]) = Inr (Num d) \<and> c \<le> d))"
    by blast
qed

theorem tsp_solver_minimal_witness:
  "distinct (cities demo) \<and> 2 \<le> length (cities demo) \<and> initial demo \<in> set (cities demo) \<and>
   integer_table demo \<and>
   tsp_solver demo = Inr (Some [''A'', ''B'', ''D'', ''C'', ''A''], Num 80) \<and>
   mset [''A'', ''D'', ''C'', ''B''] = mset (cities demo) \<and>
   hd [''A'', ''D'', ''C'', ''B''] = initial demo \<and>
   path_cost demo ([''A'', ''D'', ''C'', ''B''] @ [initial demo]) = Inr (Num 95) \<and>
   (\<exists>tour c. tsp_solver demo = Inr (Some tour, Num c) \<and>
      (\<exists>d. path_cost demo ([''A'', ''D'', ''C'', ''B''] @ [initial demo]) = Inr (Num d) \<and> c \<le> d)) \<and>
   distinct (cities blocked) \<and> 2 \<le> length (cities blocked) \<and>
   initial blocked \<in> set (cities blocked) \<and>
   tsp_solver blocked = Inr (None, Infinity) \<and>
   mset [''A'', ''B''] = mset (cities blocked) \<and> hd [''A'', ''B''] = initial blocked \<and>
   (\<exists>d. path_cost blocked ([''A'', ''B''] @ [initial blocked]) = Inr d \<and>
        \<not> cost_less d Infinity)"
proof -
  have h1: "distinct (cities demo)" by (simp add: demo_def)
  have h2: "2 \<le> length (cities demo)" by (simp add: demo_def)
  have h3: "initial demo \<in> set (cities demo)" by (simp add: demo_def)
  have h4: "integer_table demo" by code_simp
  have r: "tsp_solver demo = Inr (Some [''A'', ''B'', ''D'', ''C'', ''A''], Num 80)"
    by code_simp
  have m: "mset [''A'', ''D'', ''C'', ''B''] = mset (cities demo)"
    by (simp add: demo_def)
  have h: "hd [''A'', ''D'', ''C'', ''B''] = initial demo"
    by (simp add: demo_def)
  have p: "path_cost demo ([''A'', ''D'', ''C'', ''B''] @ [initial demo]) = Inr (Num 95)"
    by code_simp
  from tsp_solver_minimal[OF h1 h2 h3] h4 m h
  have d: "\<exists>tour c. tsp_solver demo = Inr (Some tour, Num c) \<and>
      (\<exists>d. path_cost demo ([''A'', ''D'', ''C'', ''B''] @ [initial demo]) = Inr (Num d) \<and> c \<le> d)"
    by blast
  have b1: "distinct (cities blocked)" by (simp add: blocked_def)
  have b2: "2 \<le> length (cities blocked)" by (simp add: blocked_def)
  have b3: "initial blocked \<in> set (cities blocked)" by (simp add: blocked_def)
  have br: "tsp_solver blocked = Inr (None, Infinity)" by code_simp
  have bm: "mset [''A'', ''B''] = mset (cities blocked)" by (simp add: blocked_def)
  have bh: "hd [''A'', ''B''] = initial blocked" by (simp add: blocked_def)
  from tsp_solver_minimal[OF b1 b2 b3] br bm bh
  have b: "\<exists>d. path_cost blocked ([''A'', ''B''] @ [initial blocked]) = Inr d \<and>
        \<not> cost_less d Infinity"
    by blast
  from h1 h2 h3 h4 r m h p d b1 b2 b3 br bm bh b show ?thesis by blast
qed







text \<open>
  Claim C4 (ties go to the first tour enumerated). Whenever the solver returns a tour, the
  tour closes a permutation \<open>q\<close> that passes the start filter, the returned cost \<open>c\<close> is
  the cost of that tour, every candidate enumerated before \<open>q\<close> costs strictly more
  than \<open>c\<close>, and no candidate enumerated after \<open>q\<close> costs less than \<open>c\<close>.
\<close>

theorem tsp_solver_first_minimum:
  assumes "tsp_solver problem = Inr (Some tour, mn)"
  shows "\<exists>pre q post c.
           permutations (cities problem) = pre @ q # post \<and>
           tour = q @ [initial problem] \<and> mn = Num c \<and>
           passes_start (initial problem) q \<and> path_cost problem tour = Inr (Num c) \<and>
           (\<forall>r \<in> set pre. passes_start (initial problem) r \<longrightarrow>
              (\<exists>d. path_cost problem (r @ [initial problem]) = Inr d \<and> cost_less (Num c) d)) \<and>
           (\<forall>r \<in> set post. passes_start (initial problem) r \<longrightarrow>
              (\<exists>d. path_cost problem (r @ [initial problem]) = Inr d \<and>
                   \<not> cost_less d (Num c)))"
proof -
  from assms have
    "tsp_loop problem (permutations (cities problem)) (None, Infinity) = Inr (Some tour, mn)"
    by (simp only: tsp_solver_def)
  from tsp_loop_Inr[OF this] obtain pre q post c where
    *: "permutations (cities problem) = pre @ q # post" "passes_start (initial problem) q"
    "path_cost problem (q @ [initial problem]) = Inr c"
    "tour = q @ [initial problem]" "mn = c"
    "\<forall>r \<in> set pre. passes_start (initial problem) r \<longrightarrow>
       (\<exists>d. path_cost problem (r @ [initial problem]) = Inr d \<and> cost_less c d)"
    "\<forall>r \<in> set post. passes_start (initial problem) r \<longrightarrow>
       (\<exists>d. path_cost problem (r @ [initial problem]) = Inr d \<and> \<not> cost_less d c)"
    and less: "cost_less c Infinity"
    by (elim disjE) (simp, blast)
  from less obtain k where "c = Num k" by (auto dest: cost_less_Num)
  with * show ?thesis by blast
qed

theorem tsp_solver_first_minimum_witness:
  "tsp_solver demo = Inr (Some [''A'', ''B'', ''D'', ''C'', ''A''], Num 80) \<and>
   path_cost demo [''A'', ''C'', ''D'', ''B'', ''A''] = Inr (Num 80) \<and>
   (\<exists>pre q post c.
      permutations (cities demo) = pre @ q # post \<and>
      [''A'', ''B'', ''D'', ''C'', ''A''] = q @ [initial demo] \<and> Num 80 = Num c \<and>
      passes_start (initial demo) q \<and>
      path_cost demo [''A'', ''B'', ''D'', ''C'', ''A''] = Inr (Num c) \<and>
      (\<forall>r \<in> set pre. passes_start (initial demo) r \<longrightarrow>
         (\<exists>d. path_cost demo (r @ [initial demo]) = Inr d \<and> cost_less (Num c) d)) \<and>
      (\<forall>r \<in> set post. passes_start (initial demo) r \<longrightarrow>
         (\<exists>d. path_cost demo (r @ [initial demo]) = Inr d \<and> \<not> cost_less d (Num c))))"
proof -
  have r: "tsp_solver demo = Inr (Some [''A'', ''B'', ''D'', ''C'', ''A''], Num 80)"
    by code_simp
  have t: "path_cost demo [''A'', ''C'', ''D'', ''B'', ''A''] = Inr (Num 80)"
    by code_simp
  from tsp_solver_first_minimum[OF r] r t show ?thesis
    by blast
qed

text \<open>
  Claim C5 (no city at all), as amended. The generator yields one permutation of the empty
  city list, the empty tuple, and \<^verbatim>\<open>perm[0]\<close> raises on it: the solver ends with an
  \<open>IndexError\<close> and returns no pair.
\<close>

theorem tsp_solver_no_cities:
  assumes "cities problem = []"
  shows "tsp_solver problem = Inl IndexError"
  using assms by (simp add: tsp_solver_def)

theorem tsp_solver_no_cities_witness:
  "cities no_cities = [] \<and> tsp_solver no_cities = Inl IndexError"
proof -
  have h: "cities no_cities = []" by (simp add: no_cities_def)
  from tsp_solver_no_cities[OF h] h show ?thesis by simp
qed

text \<open>
  With no city the solver does not return \<open>(None, infinity)\<close>.
\<close>

theorem tsp_solver_no_cities_counterexample:
  "cities no_cities = [] \<and> tsp_solver no_cities \<noteq> Inr (None, Infinity)"
  by (simp add: no_cities_def tsp_solver_def)

text \<open>
  Claim C6 (start city outside the list). When the city list is not empty and does not
  contain the start city, the solver returns the pair \<open>(None, infinity)\<close> and raises
  nothing, whatever the distance table holds.
\<close>

theorem tsp_solver_foreign_start:
  assumes "cities problem \<noteq> []" and "initial problem \<notin> set (cities problem)"
  shows "tsp_solver problem = Inr (None, Infinity)"
  unfolding tsp_solver_def
proof (rule tsp_loop_skip, rule ballI)
  fix r assume "r \<in> set (permutations (cities problem))"
  then have m: "mset r = mset (cities problem)"
    by (simp only: in_permutations_iff)
  with assms(1) have ne: "r \<noteq> []" by auto
  from m have "set r = set (cities problem)" by (rule mset_eq_setD)
  with assms(2) ne have "hd r \<noteq> initial problem"
    by (metis hd_in_set)
  with ne show "r \<noteq> [] \<and> \<not> passes_start (initial problem) r"
    by (simp add: passes_start_iff)
qed

theorem tsp_solver_foreign_start_witness:
  "cities foreign_start \<noteq> [] \<and> initial foreign_start \<notin> set (cities foreign_start) \<and>
   tsp_solver foreign_start = Inr (None, Infinity)"
proof -
  have h1: "cities foreign_start \<noteq> []" by (simp add: foreign_start_def)
  have h2: "initial foreign_start \<notin> set (cities foreign_start)"
    by (simp add: foreign_start_def)
  from tsp_solver_foreign_start[OF h1 h2] h1 h2 show ?thesis by simp
qed

text \<open>
  Claim C7 (legal moves). \<open>actions\<close> returns, as a set, the cities of the city list that
  do not occur in the state. This holds for every state, in particular for the non-empty
  states drawn from the city list; the model is a function of its arguments only.
\<close>

theorem actions_unvisited:
  "set (actions problem state) = set (cities problem) - set state"
  by (auto simp: actions_def)

text \<open>
  Claim C8 (number of tours evaluated), as amended. Take a problem with \<open>n\<close> distinct
  cities, the start city among them, on which the solver returns a result. Then the
  solver has let exactly \<open>(n - 1)!\<close> permutations past its start filter, namely all those
  that begin with the start city, and has priced exactly the \<open>(n - 1)!\<close> closed tours
  built from them, which are pairwise different; with each candidate the one that visits
  the other cities in the opposite order is a candidate too, so a tour and its reverse are
  both counted.
\<close>

theorem priced_count:
  assumes "distinct (cities problem)" and "initial problem \<in> set (cities problem)"
    and "tsp_solver problem = Inr res"
  shows "\<exists>lg. tsp_solver_log problem = (Inr res, lg) \<and>
           passed lg = filter (passes_start (initial problem)) (permutations (cities problem)) \<and>
           map fst (priced lg) = map (\<lambda>perm. perm @ [initial problem]) (passed lg) \<and>
           length (passed lg) = fact (length (cities problem) - 1) \<and>
           length (priced lg) = fact (length (cities problem) - 1) \<and>
           distinct (map fst (priced lg)) \<and>
           (\<forall>perm \<in> set (passed lg). initial problem # rev (tl perm) \<in> set (passed lg))"
proof -
  let ?s = "initial problem" and ?perms = "permutations (cities problem)"
  let ?cands = "filter (passes_start ?s) ?perms"
  obtain lg where lg: "tsp_solver_log problem = (tsp_solver problem, lg)"
    using tsp_loop_log_fst[of problem ?perms "(None, Infinity)" "\<lparr>passed = [], priced = []\<rparr>"]
    by (cases "tsp_solver_log problem") (simp add: tsp_solver_log_def tsp_solver_def)
  with assms(3) have run: "tsp_solver_log problem = (Inr res, lg)" by simp
  then have "tsp_loop_log problem ?perms (None, Infinity) \<lparr>passed = [], priced = []\<rparr> =
      (Inr res, lg)"
    by (simp only: tsp_solver_log_def)
  from tsp_loop_log_Inr[OF this]
  have passed: "passed lg = ?cands"
    and priced: "map fst (priced lg) = map (\<lambda>perm. perm @ [?s]) ?cands"
    by simp_all
  from assms(1,2) have "count_list (cities problem) ?s = 1"
    by (simp add: distinct_count_atmost_1 flip: count_mset)
  then have len: "length ?cands = fact (length (cities problem) - 1)"
    by (simp add: count_passes_start)
  have "length (priced lg) = length (map fst (priced lg))" by simp
  also have "\<dots> = length ?cands" by (simp only: priced length_map)
  finally have len_priced: "length (priced lg) = fact (length (cities problem) - 1)"
    by (simp only: len)
  from assms(1) have "distinct ?cands"
    by (simp add: distinct_permutations)
  then have dist: "distinct (map fst (priced lg))"
    by (simp add: priced distinct_map inj_on_def)
  have rev: "?s # rev (tl perm) \<in> set ?cands" if "perm \<in> set ?cands" for perm
  proof -
    from that have m: "mset perm = mset (cities problem)" and ps: "passes_start ?s perm"
      by (simp_all add: in_permutations_iff)
    from ps obtain tl' where perm: "perm = ?s # tl'"
      by (cases perm) (auto simp: passes_start_def)
    with m have "mset (?s # rev (tl perm)) = mset (cities problem)"
      by simp
    moreover have "passes_start ?s (?s # rev (tl perm))"
      by (simp add: passes_start_def)
    ultimately show ?thesis
      by (simp add: in_permutations_iff)
  qed
  from run passed priced len len_priced dist rev show ?thesis
    by (intro exI[of _ lg]) (simp only:, blast)
qed

theorem priced_count_witness:
  "distinct (cities demo) \<and> initial demo \<in> set (cities demo) \<and>
   tsp_solver demo = Inr (Some [''A'', ''B'', ''D'', ''C'', ''A''], Num 80) \<and>
   fact (length (cities demo) - 1) = (6::nat) \<and>
   map fst (priced (snd (tsp_solver_log demo))) =
     [[''A'', ''B'', ''C'', ''D'', ''A''], [''A'', ''B'', ''D'', ''C'', ''A''],
      [''A'', ''C'', ''B'', ''D'', ''A''], [''A'', ''C'', ''D'', ''B'', ''A''],
      [''A'', ''D'', ''B'', ''C'', ''A''], [''A'', ''D'', ''C'', ''B'', ''A'']] \<and>
   (\<exists>lg. tsp_solver_log demo =
           (Inr (Some [''A'', ''B'', ''D'', ''C'', ''A''], Num 80), lg) \<and>
      passed lg = filter (passes_start (initial demo)) (permutations (cities demo)) \<and>
      map fst (priced lg) = map (\<lambda>perm. perm @ [initial demo]) (passed lg) \<and>
      length (passed lg) = fact (length (cities demo) - 1) \<and>
      length (priced lg) = fact (length (cities demo) - 1) \<and>
      distinct (map fst (priced lg)) \<and>
      (\<forall>perm \<in> set (passed lg). initial demo # rev (tl perm) \<in> set (passed lg)))"
proof -
  have h1: "distinct (cities demo)" by (simp add: demo_def)
  have h2: "initial demo \<in> set (cities demo)" by (simp add: demo_def)
  have r: "tsp_solver demo = Inr (Some [''A'', ''B'', ''D'', ''C'', ''A''], Num 80)"
    by code_simp
  have f: "fact (length (cities demo) - 1) = (6::nat)"
    by (simp add: demo_def fact_numeral)
  have l: "map fst (priced (snd (tsp_solver_log demo))) =
     [[''A'', ''B'', ''C'', ''D'', ''A''], [''A'', ''B'', ''D'', ''C'', ''A''],
      [''A'', ''C'', ''B'', ''D'', ''A''], [''A'', ''C'', ''D'', ''B'', ''A''],
      [''A'', ''D'', ''B'', ''C'', ''A''], [''A'', ''D'', ''C'', ''B'', ''A'']]"
    by code_simp
  from priced_count[OF h1 h2 r] h1 h2 r f l show ?thesis by blast
qed

text \<open>
  In \<open>unmapped\<close>, three distinct cities with the start city among them, the solver stops
  with a \<open>KeyError\<close> at the first candidate: one permutation has passed the start filter
  and no tour has been priced, where \<open>(n - 1)!\<close> is 2.
\<close>

theorem priced_count_counterexample:
  "distinct (cities unmapped) \<and> initial unmapped \<in> set (cities unmapped) \<and>
   fact (length (cities unmapped) - 1) = (2::nat) \<and>
   tsp_solver unmapped = Inl KeyError \<and>
   tsp_solver_log unmapped =
     (Inl KeyError, \<lparr>passed = [[''A'', ''B'', ''C'']], priced = []\<rparr>)"
proof -
  have "distinct (cities unmapped)" "initial unmapped \<in> set (cities unmapped)"
    by (simp_all add: unmapped_def)
  moreover have "fact (length (cities unmapped) - 1) = (2::nat)"
    by (simp add: unmapped_def fact_numeral)
  moreover have "tsp_solver unmapped = Inl KeyError" by code_simp
  moreover have "tsp_solver_log unmapped =
     (Inl KeyError, \<lparr>passed = [[''A'', ''B'', ''C'']], priced = []\<rparr>)"
    by code_simp
  ultimately show ?thesis by blast
qed



end
